theory Spec2Isabelle
  imports Main
begin

section \<open>C integers\<close>

text \<open>
  The C type \<open>int\<close> is modelled as a mathematical integer in the range of a 32-bit
  two's complement number; every arithmetic operation of the source that can leave the
  range is followed by \<open>wrap_int\<close>, which writes the wrap-around out.
\<close>

definition wrap_int :: "int \<Rightarrow> int" where
  "wrap_int k = (k + 2 ^ 31) mod 2 ^ 32 - 2 ^ 31"

definition is_int :: "int \<Rightarrow> bool" where
  "is_int k \<longleftrightarrow> - (2 ^ 31) \<le> k \<and> k < 2 ^ 31"

text \<open>Conversion of an \<open>int\<close> argument to \<open>size_t\<close> (64 bits): negative values become huge.\<close>

definition size_t :: "int \<Rightarrow> nat" where
  "size_t k = nat (k mod 2 ^ 64)"

section \<open>\<open>next_power_of_two\<close> (examples/ffi/main.c, lines 117-126)\<close>

text \<open>
  The \<open>while (power < value) power *= 2;\<close> loop. It is a partial function: the value
  \<open>None\<close> stands for a loop that never exits.
\<close>

partial_function (option) next_power_of_two_loop :: "int \<Rightarrow> int \<Rightarrow> int option" where
  "next_power_of_two_loop pw v =
     (if pw < v then next_power_of_two_loop (wrap_int (pw * 2)) v else Some pw)"

declare next_power_of_two_loop.simps [code]

definition next_power_of_two :: "int \<Rightarrow> int option" where
  "next_power_of_two v = next_power_of_two_loop 1 v"

section \<open>Memory, strings and the C library calls of the demo variant\<close>

text \<open>
  A heap block is the list of its bytes, so its length is the size of the allocation, and a
  pointer to a block is an option (\<open>None\<close> is the null pointer). Reading or writing outside
  a block, or through a null pointer, is undefined behaviour in C; the model stops there
  with a \<open>fault\<close>. Blocks are not shared, so \<open>free\<close> changes nothing that the payload
  can observe and is left out.
\<close>

datatype fault = NullDeref | OutOfBounds

abbreviation NUL :: char where
  "NUL \<equiv> CHR 0x00"

text \<open>
  What the allocator answers is not decided by the program: \<open>NoMemory\<close> is a failed
  allocation, \<open>Fresh g\<close> a successful one whose uninitialised byte at index \<open>i\<close> holds
  \<open>g i\<close>.
\<close>

datatype alloc = NoMemory | Fresh "nat \<Rightarrow> char"

definition malloc :: "alloc \<Rightarrow> nat \<Rightarrow> string option" where
  "malloc a n = (case a of NoMemory \<Rightarrow> None | Fresh g \<Rightarrow> Some (map g [0..<n]))"

definition realloc :: "alloc \<Rightarrow> string option \<Rightarrow> nat \<Rightarrow> string option" where
  "realloc a p n =
     (case a of
        NoMemory \<Rightarrow> None
      | Fresh g \<Rightarrow>
          (case p of
             None \<Rightarrow> Some (map g [0..<n])
           | Some old \<Rightarrow> Some (take n old @ map g [length old..<n])))"

text \<open>The string that starts an array: the bytes before the first terminator.\<close>

definition c_string :: "string \<Rightarrow> fault + string" where
  "c_string a =
     (if NUL \<in> set a then Inr (takeWhile (\<lambda>c. c \<noteq> NUL) a) else Inl OutOfBounds)"

definition c_string_at :: "string option \<Rightarrow> fault + string" where
  "c_string_at p = (case p of None \<Rightarrow> Inl NullDeref | Some a \<Rightarrow> c_string a)"

text \<open>
  \<open>strncat (dest, src, n)\<close>: finds the end of the string in \<open>dest\<close>, copies at most \<open>n\<close>
  bytes of \<open>src\<close> up to its terminator, then stores a terminator.
\<close>

definition strncat :: "string option \<Rightarrow> string \<Rightarrow> nat \<Rightarrow> fault + string" where
  "strncat p src n =
     (case p of
        None \<Rightarrow> Inl NullDeref
      | Some dest \<Rightarrow>
          if NUL \<notin> set dest then Inl OutOfBounds
          else if NUL \<notin> set (take n src) \<and> length src < n then Inl OutOfBounds
          else
            let e = length (takeWhile (\<lambda>c. c \<noteq> NUL) dest);
                s = takeWhile (\<lambda>c. c \<noteq> NUL) (take n src)
            in if length dest < e + length s + 1 then Inl OutOfBounds
               else Inr (take e dest @ s @ [NUL] @ drop (e + length s + 1) dest))"

text \<open>\<open>a[i] = c\<close> for an \<open>int\<close> index.\<close>

definition store_char :: "string \<Rightarrow> int \<Rightarrow> char \<Rightarrow> fault + string" where
  "store_char a i c =
     (if 0 \<le> i \<and> i < int (length a) then Inr (a[nat i := c]) else Inl OutOfBounds)"

text \<open>The \<open>%d\<close> conversion of \<open>printf\<close>.\<close>

fun show_nat :: "nat \<Rightarrow> string" where
  "show_nat n =
     (if n < 10 then [char_of (48 + n)]
      else show_nat (n div 10) @ [char_of (48 + n mod 10)])"

declare show_nat.simps [simp del]

definition show_int :: "int \<Rightarrow> string" where
  "show_int k = (if k < 0 then CHR ''-'' # show_nat (nat (- k)) else show_nat (nat k))"

section \<open>The demo variant \<open>CustomFileHandle\<close> (examples/ffi/main.c, lines 104-161)\<close>

record CustomFileHandle =
  total_bytes_written :: int
  capacity :: int
  buffer :: "string option"

text \<open>Lines 136-140 of \<open>custom_write\<close>: the resize of the buffer.\<close>

definition resize_buffer :: "alloc \<Rightarrow> CustomFileHandle \<Rightarrow> CustomFileHandle option" where
  "resize_buffer mem custom =
     (if capacity custom \<le> total_bytes_written custom then
        (case next_power_of_two (total_bytes_written custom) of
           None \<Rightarrow> None
         | Some cap \<Rightarrow>
             Some (custom\<lparr>capacity := cap,
                          buffer := realloc mem (buffer custom) (size_t cap)\<rparr>))
      else Some custom)"

text \<open>
  \<open>custom_write\<close> returns the updated payload, the text printed to the console and the
  returned \<open>int\<close>. The outer \<open>None\<close> is a call that never returns.
\<close>

definition custom_write ::
  "alloc \<Rightarrow> CustomFileHandle \<Rightarrow> string \<Rightarrow> int \<Rightarrow> (fault + CustomFileHandle \<times> string \<times> int) option"
where
  "custom_write mem custom data len =
     (let c1 = custom\<lparr>total_bytes_written := wrap_int (total_bytes_written custom + len)\<rparr>
      in case c_string data of
           Inl f \<Rightarrow> Some (Inl f)
         | Inr text \<Rightarrow>
             (case resize_buffer mem c1 of
                None \<Rightarrow> None
              | Some c2 \<Rightarrow>
                  (case strncat (buffer c2) data (size_t len) of
                     Inl f \<Rightarrow> Some (Inl f)
                   | Inr b \<Rightarrow>
                       (case store_char b (total_bytes_written c2) NUL of
                          Inl f \<Rightarrow> Some (Inl f)
                        | Inr b' \<Rightarrow>
                            Some (Inr (c2\<lparr>buffer := Some b'\<rparr>,
                                       ''['' @ show_int (total_bytes_written c1) @ ''] '' @ text,
                                       len))))))"

definition custom_flush ::
  "alloc \<Rightarrow> CustomFileHandle \<Rightarrow> fault + CustomFileHandle \<times> string \<times> int"
where
  "custom_flush mem custom =
     (case c_string_at (buffer custom) of
        Inl f \<Rightarrow> Inl f
      | Inr text \<Rightarrow>
          Inr (custom\<lparr>total_bytes_written := 0, buffer := malloc mem 16, capacity := 16\<rparr>,
               ''[BEGIN FLUSH]'' @ text @ ''[END FLUSH]'',
               0))"

section \<open>The builder and \<open>custom_file_handle\<close> (examples/ffi/main.c, lines 163-181)\<close>

type_synonym addr = nat

record FileHandleBuilder =
  file_handle :: addr
  place :: addr

text \<open>The handle object that the library writes at the start of the combined allocation.\<close>

record 'f FileHandle =
  handle_destroy :: 'f
  handle_write :: 'f
  handle_flush :: 'f
  handle_payload :: addr

text \<open>
  What the library's allocator answers to a request for a size and an alignment (\<open>None\<close>
  when the allocation cannot be satisfied), and the size and alignment of the handle's own
  bookkeeping.
\<close>

record library =
  lib_alloc :: "nat \<Rightarrow> nat \<Rightarrow> addr option"
  header_size :: nat
  header_align :: nat

definition round_up :: "nat \<Rightarrow> nat \<Rightarrow> nat" where
  "round_up n a = ((n + a - 1) div a) * a"

text \<open>
  Modelled from the spec: \<open>new_file_handle_builder\<close> is declared in
  \<open>thin_trait_objects.h\<close> and implemented by the library, neither of which is among the
  example sources. Following section 4.1 of the specification, it performs one allocation
  large enough and aligned enough for the bookkeeping and for a payload of the requested
  size and alignment, returns the payload's place and the handle wired to it and to the
  three behaviours, and returns a null result when the allocation cannot be satisfied.
  The address 0 is the null pointer.
\<close>

definition new_file_handle_builder ::
  "library \<Rightarrow> nat \<Rightarrow> nat \<Rightarrow> 'f \<Rightarrow> 'f \<Rightarrow> 'f \<Rightarrow> FileHandleBuilder \<times> 'f FileHandle option"
where
  "new_file_handle_builder lib payload_size payload_alignment destroy write flush =
     (let offset = round_up (header_size lib) payload_alignment
      in case lib_alloc lib (offset + payload_size) (max (header_align lib) payload_alignment) of
           None \<Rightarrow> (\<lparr>file_handle = 0, place = 0\<rparr>, None)
         | Some base \<Rightarrow>
             (\<lparr>file_handle = base, place = base + offset\<rparr>,
              Some \<lparr>handle_destroy = destroy, handle_write = write, handle_flush = flush,
                    handle_payload = base + offset\<rparr>))"

datatype custom_fn = Custom_destroy | Custom_write | Custom_flush

text \<open>
  \<open>custom_file_handle\<close>: \<open>sizeof (CustomFileHandle)\<close> is 16 and its alignment 8 (two
  \<open>int\<close> fields and a pointer, on a 64-bit target). The first store through
  \<open>builder.place\<close> faults when the place is null, and the store to \<open>buffer[0]\<close> faults
  when \<open>malloc\<close> has failed.
\<close>

definition custom_file_handle :: "library \<Rightarrow> alloc \<Rightarrow> fault + addr \<times> CustomFileHandle" where
  "custom_file_handle lib mem =
     (let builder = fst (new_file_handle_builder lib 16 8 Custom_destroy Custom_write Custom_flush)
      in if place builder = 0 then Inl NullDeref
         else (case malloc mem 16 of
                 None \<Rightarrow> Inl NullDeref
               | Some b \<Rightarrow>
                   (case store_char b 0 NUL of
                      Inl f \<Rightarrow> Inl f
                    | Inr b' \<Rightarrow>
                        Inr (file_handle builder,
                             \<lparr>total_bytes_written = 0, capacity = 16, buffer = Some b'\<rparr>))))"

text \<open>
  A sequence of \<open>write\<close> and \<open>flush\<close> calls on one payload, each with what the allocator
  answers during the call; the result is the final payload and the console output.
\<close>

datatype call = Write alloc string int | Flush alloc

fun run :: "CustomFileHandle \<Rightarrow> call list \<Rightarrow> (fault + CustomFileHandle \<times> string) option" where
  "run custom [] = Some (Inr (custom, []))"
| "run custom (Write mem data len # cs) =
     (case custom_write mem custom data len of
        None \<Rightarrow> None
      | Some (Inl f) \<Rightarrow> Some (Inl f)
      | Some (Inr (custom', out, r)) \<Rightarrow>
          (case run custom' cs of
             None \<Rightarrow> None
           | Some (Inl f) \<Rightarrow> Some (Inl f)
           | Some (Inr (custom'', outs)) \<Rightarrow> Some (Inr (custom'', out @ outs))))"
| "run custom (Flush mem # cs) =
     (case custom_flush mem custom of
        Inl f \<Rightarrow> Some (Inl f)
      | Inr (custom', out, r) \<Rightarrow>
          (case run custom' cs of
             None \<Rightarrow> None
           | Some (Inl f) \<Rightarrow> Some (Inl f)
           | Some (Inr (custom'', outs)) \<Rightarrow> Some (Inr (custom'', out @ outs))))"

text \<open>The content of the growable buffer as C reads it, and the well-formed payloads.\<close>

definition buffered :: "CustomFileHandle \<Rightarrow> fault + string" where
  "buffered custom = c_string_at (buffer custom)"

text \<open>The powers of two that an \<open>int\<close> can hold.\<close>

definition pow2 :: "int \<Rightarrow> bool" where
  "pow2 n \<longleftrightarrow> n \<in> set (map (\<lambda>k. 2 ^ k) [0..<31])"

text \<open>
  A payload is well formed when its buffer is a block of \<open>capacity\<close> bytes that holds a
  terminated string of at most \<open>total_bytes_written\<close> bytes, the counter is below the
  capacity and the capacity is a power of two from 16 on.
\<close>

definition well_formed :: "CustomFileHandle \<Rightarrow> bool" where
  "well_formed custom \<longleftrightarrow>
     (case buffer custom of
        None \<Rightarrow> False
      | Some b \<Rightarrow>
          NUL \<in> set b \<and> int (length b) = capacity custom \<and>
          int (length (takeWhile (\<lambda>c. c \<noteq> NUL) b)) \<le> total_bytes_written custom \<and>
          total_bytes_written custom < capacity custom \<and>
          pow2 (capacity custom) \<and> 16 \<le> capacity custom)"

text \<open>The calls made since the last flush, and the length argument of a call.\<close>

fun is_flush :: "call \<Rightarrow> bool" where
  "is_flush (Flush mem) = True"
| "is_flush (Write mem data len) = False"

fun write_len :: "call \<Rightarrow> int" where
  "write_len (Write mem data len) = len"
| "write_len (Flush mem) = 0"

fun after_last_flush :: "call list \<Rightarrow> call list" where
  "after_last_flush [] = []"
| "after_last_flush (c # cs) =
     (if list_ex is_flush cs then after_last_flush cs
      else if is_flush c then cs else c # cs)"

text \<open>
  Sequences of calls on which no call can fault or run forever, from a counter and a
  capacity: every write has a length of at least 0 and terminated data and either stays
  below the capacity or grows the buffer to a total of at most \<open>2 ^ 30\<close> that is not a
  power of two, with memory available; every flush gets a block that starts with a
  terminator.
\<close>

fun succeeds :: "alloc \<Rightarrow> bool" where
  "succeeds NoMemory = False"
| "succeeds (Fresh g) = True"

fun safe_calls :: "int \<Rightarrow> int \<Rightarrow> call list \<Rightarrow> bool" where
  "safe_calls t cap [] = True"
| "safe_calls t cap (Write mem data len # cs) =
     (0 \<le> len \<and> NUL \<in> set data \<and>
      (if t + len < cap then safe_calls (t + len) cap cs
       else succeeds mem \<and> t + len \<le> 2 ^ 30 \<and> \<not> pow2 (t + len) \<and>
            (case next_power_of_two (t + len) of
               None \<Rightarrow> False
             | Some cap' \<Rightarrow> safe_calls (t + len) cap' cs)))"
| "safe_calls t cap (Flush mem # cs) =
     ((case mem of NoMemory \<Rightarrow> False | Fresh g \<Rightarrow> g 0 = NUL) \<and> safe_calls 0 16 cs)"

text \<open>
  Example inputs: a library whose allocator answers every request with address 4096 and
  one that has no memory left, an allocator answer whose uninitialised bytes all hold
  \<open>X\<close>, and the payload that \<open>custom_file_handle\<close> then builds.
\<close>

definition demo_library :: library where
  "demo_library = \<lparr>lib_alloc = (\<lambda>n a. Some 4096), header_size = 32, header_align = 8\<rparr>"

definition exhausted_library :: library where
  "exhausted_library = \<lparr>lib_alloc = (\<lambda>n a. None), header_size = 32, header_align = 8\<rparr>"

definition dirty :: alloc where
  "dirty = Fresh (\<lambda>i. CHR ''X'')"

definition fresh_payload :: CustomFileHandle where
  "fresh_payload =
     \<lparr>total_bytes_written = 0, capacity = 16, buffer = Some (NUL # replicate 15 (CHR ''X''))\<rparr>"

text \<open>
  Two more allocator answers: a block of zero bytes, and a block that still holds an
  \<open>X\<close> in its first byte.
\<close>

definition clean :: alloc where
  "clean = Fresh (\<lambda>i. NUL)"

definition stale :: alloc where
  "stale = Fresh (\<lambda>i. if i = 0 then CHR ''X'' else NUL)"

definition grown_payload :: CustomFileHandle where
  "grown_payload =
     \<lparr>total_bytes_written = 20, capacity = 32,
      buffer = Some (''abcdefghijklmnopqrst'' @ [NUL] @ replicate 11 (CHR ''X''))\<rparr>"

section \<open>The example programs (example/main.c and examples/ffi/main.c)\<close>

text \<open>
  The programs reach the library only through its constructors and \<open>file_handle_write\<close>,
  \<open>file_handle_flush\<close> and \<open>file_handle_destroy\<close>. What these answer is a parameter of
  the model: a constructor returns a handle or null (\<open>None\<close>), and a write or flush
  returns the handle's next state and its \<open>int\<close> result, or does not return (\<open>None\<close>).
\<close>

record 'h library_calls =
  new_file_handle_from_path :: "string \<Rightarrow> 'h option"
  new_stdout_file_handle :: "'h option"
  new_custom_file_handle :: "'h option"
  file_handle_write :: "'h \<Rightarrow> string \<Rightarrow> int \<Rightarrow> ('h \<times> int) option"
  file_handle_flush :: "'h \<Rightarrow> ('h \<times> int) option"

datatype source = From_path string | Stdout | Custom

datatype event =
    Usage
  | Opened source
  | Open_failed source
  | Write_call string int int
  | Flush_call int
  | Destroy
  | Perror string

fun strcmp :: "string \<Rightarrow> string \<Rightarrow> int" where
  "strcmp [] [] = 0"
| "strcmp [] (b # bs) = - int (of_char b)"
| "strcmp (a # as) [] = int (of_char a)"
| "strcmp (a # as) (b # bs) =
     (if a = b then strcmp as bs else int (of_char a) - int (of_char b))"

fun strstr :: "string \<Rightarrow> string \<Rightarrow> bool" where
  "strstr [] needle = (needle = [])"
| "strstr (h # hs) needle = (take (length needle) (h # hs) = needle \<or> strstr hs needle)"

text \<open>
  \<open>fgets (buffer, size, stdin)\<close> on the remaining input: null at the end of the input,
  otherwise the bytes stored (at most \<open>size - 1\<close>, up to and including a newline) and
  the input left.
\<close>

definition fgets :: "nat \<Rightarrow> string \<Rightarrow> (string \<times> string) option" where
  "fgets n inp =
     (if inp = [] then None
      else
        let pre = take (n - 1) inp;
            line = takeWhile (\<lambda>c. c \<noteq> CHR 0x0A) pre;
            got = (if length line < length pre then line @ [CHR 0x0A] else pre)
        in Some (got, drop (length got) inp))"




text \<open>
  The loop that copies standard input to the handle in example/main.c (lines 49-64), with
  the \<open>file_handle_destroy\<close> and \<open>return 0\<close> that follow it. The result is the trace of
  library calls and messages and the value returned by \<open>main\<close>.
\<close>

function copy_stdin :: "'h library_calls \<Rightarrow> 'h \<Rightarrow> string \<Rightarrow> (event list \<times> int) option" where
  "copy_stdin L h inp =
     (case fgets 1024 inp of
        None \<Rightarrow> Some ([Destroy], 0)
      | Some (got, rest) \<Rightarrow>
          (let text = takeWhile (\<lambda>c. c \<noteq> NUL) got; len = int (length text)
           in case file_handle_write L h (got @ [NUL]) len of
                None \<Rightarrow> None
              | Some (h', bytes_written) \<Rightarrow>
                  if bytes_written < 0 then
                    Some ([Write_call text len bytes_written,
                           Perror ''Unable to copy from stdin to the file handle'',
                           Destroy], 1)
                  else
                    map_option (\<lambda>(tr, code). (Write_call text len bytes_written # tr, code))
                      (copy_stdin L h' rest)))"
  by pat_completeness auto
termination
proof (relation "measure (\<lambda>(L, h, inp). length inp)")
  show "wf (measure (\<lambda>(L, h, inp). length inp))" by simp
next
  fix L :: "'h library_calls" and h h' :: 'h and inp :: string
    and x2 got rest xa xb x2a x y
  assume "fgets 1024 inp = Some x2" "(got, rest) = x2"
  then have "inp \<noteq> []" "rest = drop (length got) inp" "got \<noteq> []"
    by (auto simp: fgets_def Let_def split: if_splits)
  then show "((L, h', rest), L, h, inp) \<in> measure (\<lambda>(L, h, inp). length inp)" by simp
qed

declare copy_stdin.simps [simp del]

text \<open>The same loop in examples/ffi/main.c (lines 71-96), which also flushes.\<close>

function copy_stdin_ffi :: "'h library_calls \<Rightarrow> 'h \<Rightarrow> string \<Rightarrow> (event list \<times> int) option" where
  "copy_stdin_ffi L h inp =
     (case fgets 1024 inp of
        None \<Rightarrow> Some ([Destroy], 0)
      | Some (got, rest) \<Rightarrow>
          (let text = takeWhile (\<lambda>c. c \<noteq> NUL) got; len = int (length text)
           in case file_handle_write L h (got @ [NUL]) len of
                None \<Rightarrow> None
              | Some (h', bytes_written) \<Rightarrow>
                  if bytes_written < 0 then
                    Some ([Write_call text len bytes_written,
                           Perror ''Unable to copy from stdin to the file handle'',
                           Destroy], 1)
                  else if strstr text ''flush'' then
                    (case file_handle_flush L h' of
                       None \<Rightarrow> None
                     | Some (h'', ret) \<Rightarrow>
                         if ret \<noteq> 0 then
                           Some ([Write_call text len bytes_written, Flush_call ret,
                                  Perror ''Flushing failed''], ret)
                         else
                           map_option
                             (\<lambda>(tr, code).
                                (Write_call text len bytes_written # Flush_call ret # tr, code))
                             (copy_stdin_ffi L h'' rest))
                  else
                    map_option (\<lambda>(tr, code). (Write_call text len bytes_written # tr, code))
                      (copy_stdin_ffi L h' rest)))"
  by pat_completeness auto
termination
proof (relation "measure (\<lambda>(L, h, inp). length inp)")
  show "wf (measure (\<lambda>(L, h, inp). length inp))" by simp
next
  fix L :: "'h library_calls" and h h' :: 'h and inp :: string and x2 got rest
  assume "fgets 1024 inp = Some x2" "(got, rest) = x2"
  then have "inp \<noteq> []" "rest = drop (length got) inp" "got \<noteq> []"
    by (auto simp: fgets_def Let_def split: if_splits)
  then show "((L, h', rest), L, h, inp) \<in> measure (\<lambda>(L, h, inp). length inp)" by simp
next
  fix L :: "'h library_calls" and h h' :: 'h and inp :: string and x2 got rest
  assume "fgets 1024 inp = Some x2" "(got, rest) = x2"
  then have "inp \<noteq> []" "rest = drop (length got) inp" "got \<noteq> []"
    by (auto simp: fgets_def Let_def split: if_splits)
  then show "((L, h', rest), L, h, inp) \<in> measure (\<lambda>(L, h, inp). length inp)" by simp
qed

declare copy_stdin_ffi.simps [simp del]


text \<open>The greeting written before the loop (lines 34-44, and 56-66 of the ffi example).\<close>

definition greeting :: string where
  "greeting = ''Hello, World'' @ [CHR 0x0A]"

definition greet_then ::
  "'h library_calls \<Rightarrow> source \<Rightarrow> 'h \<Rightarrow> ('h \<Rightarrow> (event list \<times> int) option) \<Rightarrow> (event list \<times> int) option"
where
  "greet_then L src h continue =
     (case file_handle_write L h (greeting @ [NUL]) 13 of
        None \<Rightarrow> None
      | Some (h', bytes_written) \<Rightarrow>
          if bytes_written \<noteq> 13 then
            Some ([Opened src, Write_call greeting 13 bytes_written,
                   Perror ''Unable to write a nice message'', Destroy], 1)
          else
            map_option
              (\<lambda>(tr, code). (Opened src # Write_call greeting 13 bytes_written # tr, code))
              (continue h'))"

text \<open>\<open>main\<close> of example/main.c; \<open>argv\<close> is the whole argument vector, program name first.\<close>

definition main :: "'h library_calls \<Rightarrow> string list \<Rightarrow> string \<Rightarrow> (event list \<times> int) option" where
  "main L argv inp =
     (if list_ex (\<lambda>a. strcmp a ''-h'' = 0 \<or> strcmp a ''--help'' = 0) (tl argv) then
        Some ([Usage], 0)
      else
        let src = (if 1 < length argv then From_path (argv ! 1) else Stdout);
            handle = (case src of
                        From_path output_file \<Rightarrow> new_file_handle_from_path L output_file
                      | _ \<Rightarrow> new_stdout_file_handle L)
        in case handle of
             None \<Rightarrow> Some ([Open_failed src, Perror ''Unable to open the file handle''], 1)
           | Some h \<Rightarrow> greet_then L src h (\<lambda>h'. copy_stdin L h' inp))"

text \<open>
  The argument loop of examples/ffi/main.c (lines 16-27): \<open>None\<close> when the usage message
  is printed and \<open>main\<close> returns 0, otherwise the value of \<open>custom\<close> after the loop. The
  second test of line 23 is \<open>strcmp (argv[i], "--custom")\<close> itself, which C reads as true
  when it is not 0.
\<close>

fun parse_args :: "string list \<Rightarrow> bool \<Rightarrow> bool option" where
  "parse_args [] custom = Some custom"
| "parse_args (a # as) custom =
     (if strcmp a ''-h'' = 0 \<or> strcmp a ''--help'' = 0 then None
      else if strcmp a ''-c'' = 0 \<or> strcmp a ''--custom'' \<noteq> 0 then parse_args as True
      else parse_args as custom)"

text \<open>Lines 29-48: which constructor the ffi example calls.\<close>

definition choose_source :: "bool \<Rightarrow> string list \<Rightarrow> source" where
  "choose_source custom argv =
     (if custom then Custom
      else if 1 < length argv then From_path (argv ! 1)
      else Stdout)"

definition open_source :: "'h library_calls \<Rightarrow> source \<Rightarrow> 'h option" where
  "open_source L src =
     (case src of
        Custom \<Rightarrow> new_custom_file_handle L
      | From_path output_file \<Rightarrow> new_file_handle_from_path L output_file
      | Stdout \<Rightarrow> new_stdout_file_handle L)"

definition main_ffi :: "'h library_calls \<Rightarrow> string list \<Rightarrow> string \<Rightarrow> (event list \<times> int) option" where
  "main_ffi L argv inp =
     (case parse_args (tl argv) False of
        None \<Rightarrow> Some ([Usage], 0)
      | Some custom \<Rightarrow>
          let src = choose_source custom argv
          in case open_source L src of
               None \<Rightarrow> Some ([Open_failed src, Perror ''Unable to open the file handle''], 1)
             | Some h \<Rightarrow> greet_then L src h (\<lambda>h'. copy_stdin_ffi L h' inp))"




definition copy_failed :: event where
  "copy_failed = Perror ''Unable to copy from stdin to the file handle''"







text \<open>
  The behaviour table of a variant: its write and flush operations on a payload, each
  returning the payload it leaves and its \<open>int\<close> result, or not returning. A handle refers
  to a behaviour table and holds a payload.
\<close>

record 'p behaviour_table =
  write_op :: "'p \<Rightarrow> string \<Rightarrow> int \<Rightarrow> ('p \<times> int) option"
  flush_op :: "'p \<Rightarrow> ('p \<times> int) option"

type_synonym 'p handle = "'p behaviour_table \<times> 'p"




text \<open>
  Example libraries, with a counter for a handle: one accepts every write in full and
  flushes with success, one answers every flush with the error code 5, one accepts at most
  3 bytes of each write.
\<close>

definition echo_library :: "nat library_calls" where
  "echo_library =
     \<lparr>new_file_handle_from_path = (\<lambda>p. Some 0), new_stdout_file_handle = Some 0,
      new_custom_file_handle = Some 0,
      file_handle_write = (\<lambda>h d l. Some (h + 1, l)),
      file_handle_flush = (\<lambda>h. Some (h, 0))\<rparr>"

definition failing_flush_library :: "nat library_calls" where
  "failing_flush_library = echo_library\<lparr>file_handle_flush := (\<lambda>h. Some (h, 5))\<rparr>"




section \<open>Properties of \<open>next_power_of_two\<close>\<close>

lemma wrap_int_id: "is_int k \<Longrightarrow> wrap_int k = k"
  by (simp add: wrap_int_def is_int_def)

lemma pow2_is_int: "k \<le> 30 \<Longrightarrow> is_int (2 ^ k)"
proof -
  assume "k \<le> 30"
  then have "(2::int) ^ k \<le> 2 ^ 30" by (intro power_increasing) auto
  moreover have "(0::int) \<le> 2 ^ k" by simp
  moreover have "- (2 ^ 31) \<le> (0::int)" "(2::int) ^ 30 < 2 ^ 31" by simp_all
  ultimately show ?thesis unfolding is_int_def by linarith
qed

lemma wrap_double: "j < 30 \<Longrightarrow> wrap_int (2 ^ j * 2) = 2 ^ Suc j"
  using wrap_int_id [OF pow2_is_int [of "Suc j"]] by (simp add: mult.commute)

text \<open>Once the doubling has wrapped around to 0 the loop never exits.\<close>

lemma next_power_of_two_loop_zero:
  assumes "0 < v"
  shows "next_power_of_two_loop 0 v = None"
proof -
  have "\<not> (pw = 0 \<and> 0 < v')" if "next_power_of_two_loop pw v' = Some y" for pw v' y
    by (rule next_power_of_two_loop.raw_induct
          [where P = "\<lambda>pw v' y. \<not> (pw = 0 \<and> 0 < v')", OF _ that])
       (auto simp: wrap_int_def split: if_splits)
  with assms show ?thesis by (cases "next_power_of_two_loop 0 v") auto
qed

lemma next_power_of_two_loop_pow:
  assumes "v \<le> 2 ^ 30"
  shows "j \<le> 30 \<Longrightarrow>
    \<exists>m. j \<le> m \<and> m \<le> 30 \<and> next_power_of_two_loop (2 ^ j) v = Some (2 ^ m) \<and>
        v \<le> 2 ^ m \<and> (j < m \<longrightarrow> 2 ^ (m - 1) < v)"
proof (induction "30 - j" arbitrary: j)
  case 0
  then have "j = 30" by simp
  with assms show ?case by (subst next_power_of_two_loop.simps) auto
next
  case (Suc n)
  then have j: "j < 30" by simp
  show ?case
  proof (cases "2 ^ j < v")
    case False
    then show ?thesis using j by (subst next_power_of_two_loop.simps) auto
  next
    case True
    note w = wrap_double [OF j]
    have "n = 30 - Suc j" "Suc j \<le> 30" using Suc(2) j by simp_all
    from Suc(1) [OF this] obtain m where m: "Suc j \<le> m" "m \<le> 30"
      "next_power_of_two_loop (2 ^ Suc j) v = Some (2 ^ m)" "v \<le> 2 ^ m"
      "Suc j < m \<longrightarrow> 2 ^ (m - 1) < v"
      by blast
    have "2 ^ (m - 1) < v"
    proof (cases "Suc j < m")
      case True
      with m show ?thesis by simp
    next
      case False
      with m have "m = Suc j" by simp
      with \<open>2 ^ j < v\<close> show ?thesis by simp
    qed
    with m True w show ?thesis
      by (subst next_power_of_two_loop.simps) (auto intro!: exI [of _ m])
  qed
qed

lemma next_power_of_two_loop_big:
  assumes "2 ^ 30 < v" "is_int v"
  shows "j \<le> 30 \<Longrightarrow> next_power_of_two_loop (2 ^ j) v = None"
proof (induction "30 - j" arbitrary: j)
  case 0
  then have j: "j = 30" by simp
  have "next_power_of_two_loop (2 ^ 30) v = next_power_of_two_loop (- (2 ^ 31)) v"
    using assms by (subst next_power_of_two_loop.simps) (simp add: wrap_int_def)
  also have "\<dots> = next_power_of_two_loop 0 v"
    using assms by (subst next_power_of_two_loop.simps) (simp add: wrap_int_def is_int_def)
  also have "\<dots> = None" using assms by (intro next_power_of_two_loop_zero) simp
  finally show ?case using j by simp
next
  case (Suc n)
  then have j: "j < 30" by simp
  have le: "(2::int) ^ Suc j \<le> 2 ^ 30" using j by (intro power_increasing) auto
  note w = wrap_double [OF j]
  have "(2::int) ^ j < v" using le assms by simp
  then have "next_power_of_two_loop (2 ^ j) v = next_power_of_two_loop (2 ^ Suc j) v"
    using w by (subst next_power_of_two_loop.simps) simp
  also have "\<dots> = None" using Suc j by (intro Suc(1)) auto
  finally show ?case .
qed

text \<open>What the function returns on every value up to \<open>2 ^ 30\<close>.\<close>

lemma next_power_of_two_small:
  assumes "v \<le> 2 ^ 30"
  shows "\<exists>m\<le>30. next_power_of_two v = Some (2 ^ m) \<and> v \<le> 2 ^ m \<and> (0 < m \<longrightarrow> 2 ^ (m - 1) < v)"
  using next_power_of_two_loop_pow [OF assms, of 0] by (auto simp: next_power_of_two_def)

lemma next_power_of_two_big:
  assumes "2 ^ 30 < v" "is_int v"
  shows "next_power_of_two v = None"
  using next_power_of_two_loop_big [OF assms, of 0] by (simp add: next_power_of_two_def)

lemma pow2_least:
  fixes v :: int
  assumes "0 < m \<longrightarrow> 2 ^ (m - 1) < v" "v \<le> 2 ^ i"
  shows "m \<le> i"
proof (rule ccontr)
  assume "\<not> m \<le> i"
  then have "i \<le> m - 1" "0 < m" by simp_all
  then have "(2::int) ^ i \<le> 2 ^ (m - 1)" by (intro power_increasing) auto
  moreover from assms(1) \<open>0 < m\<close> have "2 ^ (m - 1) < v" by simp
  ultimately show False using assms(2) by linarith
qed

text \<open>
  C9 (as amended): for every \<open>int\<close> value from 1 to \<open>2 ^ 30\<close>, \<open>next_power_of_two\<close>
  terminates and returns the smallest power of two greater than or equal to the value.
\<close>

theorem next_power_of_two_correct:
  assumes "1 \<le> v" "v \<le> 2 ^ 30"
  shows "\<exists>m. next_power_of_two v = Some (2 ^ m) \<and> v \<le> 2 ^ m \<and> (\<forall>i. v \<le> 2 ^ i \<longrightarrow> m \<le> i)"
proof -
  from next_power_of_two_small [OF assms(2)] obtain m where
    m: "next_power_of_two v = Some (2 ^ m)" "v \<le> 2 ^ m" "0 < m \<longrightarrow> 2 ^ (m - 1) < v"
    by blast
  have "\<forall>i. v \<le> 2 ^ i \<longrightarrow> m \<le> i" using pow2_least [OF m(3)] by blast
  with m show ?thesis by blast
qed

theorem next_power_of_two_correct_witness:
  "(1::int) \<le> 20 \<and> (20::int) \<le> 2 ^ 30 \<and>
   (\<exists>m. next_power_of_two 20 = Some (2 ^ m) \<and> (20::int) \<le> 2 ^ m \<and>
        (\<forall>i. (20::int) \<le> 2 ^ i \<longrightarrow> m \<le> i))"
  using next_power_of_two_correct [of 20] by simp

text \<open>
  C9 as stated fails: \<open>2 ^ 30 + 1\<close> is an \<open>int\<close> value of at least 1 on which the loop
  doubles \<open>power\<close> past the largest \<open>int\<close>, wraps around to 0 and never exits.
\<close>

theorem next_power_of_two_diverges: "next_power_of_two 1073741825 = None"
  using next_power_of_two_big [of 1073741825] by (simp add: is_int_def)

section \<open>Properties of \<open>custom_write\<close> and \<open>custom_flush\<close>\<close>

lemma pow2_iff: "pow2 n \<longleftrightarrow> (\<exists>k\<le>30. n = 2 ^ k)"
proof -
  have "(\<exists>k<31. n = (2::int) ^ k) \<longleftrightarrow> (\<exists>k\<le>30. n = 2 ^ k)"
    by (metis less_Suc_eq_le eval_nat_numeral(3) Suc_numeral semiring_norm(5) semiring_norm(8))
  then show ?thesis by (auto simp: pow2_def image_iff)
qed

lemma wrap_int_is_int: "is_int (wrap_int k)"
  by (simp add: wrap_int_def is_int_def) 

lemma custom_write_returns:
  assumes "custom_write mem c data len = Some (Inr (c', out, r))"
  shows "r = len" "total_bytes_written c' = wrap_int (total_bytes_written c + len)"
    "capacity c \<le> total_bytes_written c' \<Longrightarrow> next_power_of_two (total_bytes_written c') = Some (capacity c')"
    "total_bytes_written c' < capacity c \<Longrightarrow> capacity c' = capacity c"
  using assms
  by (auto simp: custom_write_def resize_buffer_def Let_def split: sum.splits option.splits if_splits)

lemma takeWhile_stop:
  assumes "\<forall>x\<in>set xs. P x" "\<not> P y"
  shows "takeWhile P (xs @ y # ys) = xs"
  using assms by (simp add: takeWhile_append2)

lemma size_t_nat: "0 \<le> k \<Longrightarrow> is_int k \<Longrightarrow> size_t k = nat k"
  by (simp add: size_t_def is_int_def)

lemma append_ok:
  assumes nul: "NUL \<in> set b"
    and e: "int (length (takeWhile (\<lambda>c. c \<noteq> NUL) b)) \<le> t"
    and len: "0 \<le> len"
    and room: "t + len < int (length b)"
    and data: "NUL \<in> set data"
  shows "\<exists>b1 b2. strncat (Some b) data (nat len) = Inr b1 \<and>
           store_char b1 (t + len) NUL = Inr b2 \<and> length b2 = length b \<and>
           c_string b2 = Inr (takeWhile (\<lambda>c. c \<noteq> NUL) b @ takeWhile (\<lambda>c. c \<noteq> NUL) (take (nat len) data))"
proof -
  define s0 where "s0 = takeWhile (\<lambda>c. c \<noteq> NUL) b"
  define s where "s = takeWhile (\<lambda>c. c \<noteq> NUL) (take (nat len) data)"
  define b1 where "b1 = take (length s0) b @ s @ [NUL] @ drop (length s0 + length s + 1) b"
  have ls: "length s \<le> nat len"
    unfolding s_def by (rule order_trans [OF length_takeWhile_le]) simp
  have src: "\<not> (NUL \<notin> set (take (nat len) data) \<and> length data < nat len)"
    using data by auto
  have fits: "\<not> length b < length s0 + length s + 1"
    using e room ls len unfolding s0_def by linarith
  have cat: "strncat (Some b) data (nat len) = Inr b1"
    using nul src fits unfolding strncat_def b1_def s0_def s_def by (simp add: Let_def)
  have t0: "take (length s0) b = s0"
    unfolding s0_def by (rule takeWhile_eq_take [symmetric])
  have lb1: "length b1 = length b"
    using fits unfolding b1_def by simp
  define p where "p = s0 @ s"
  have pre: "\<forall>x\<in>set p. x \<noteq> NUL"
    unfolding p_def s0_def s_def by (auto dest: set_takeWhileD)
  have idx: "length p \<le> nat (t + len)"
    using e ls len unfolding p_def s0_def by simp
  define rest where "rest = drop (length s0 + length s + 1) b"
  have b1': "b1 = p @ NUL # rest"
    unfolding b1_def rest_def t0 p_def by simp
  define b2 where "b2 = b1[nat (t + len) := NUL]"
  have "(NUL # rest)[j := NUL] = NUL # tl ((NUL # rest)[j := NUL])" for j
    by (cases j) simp_all
  then have "\<exists>rest'. (NUL # rest)[nat (t + len) - length p := NUL] = NUL # rest'"
    by blast
  then obtain rest' where "(NUL # rest)[nat (t + len) - length p := NUL] = NUL # rest'"
    by blast
  with idx have b2': "b2 = p @ NUL # rest'"
    unfolding b2_def b1' by (simp add: list_update_append)
  have cs: "c_string b2 = Inr (s0 @ s)"
    unfolding c_string_def b2' using takeWhile_stop [OF pre, of NUL rest'] by (simp add: p_def)
  have st: "store_char b1 (t + len) NUL = Inr b2"
    using room len e lb1 unfolding store_char_def b2_def s0_def by auto
  have "length b2 = length b" unfolding b2_def using lb1 by simp
  with cat st cs show ?thesis unfolding s0_def s_def by blast
qed


lemma well_formedE:
  assumes "well_formed c"
  obtains b where "buffer c = Some b" "NUL \<in> set b" "int (length b) = capacity c"
    "int (length (takeWhile (\<lambda>c. c \<noteq> NUL) b)) \<le> total_bytes_written c"
    "total_bytes_written c < capacity c" "pow2 (capacity c)" "16 \<le> capacity c"
  using assms unfolding well_formed_def by (auto split: option.splits)

lemma pow2_le: "pow2 n \<Longrightarrow> n \<le> 2 ^ 30"
proof -
  assume "pow2 n"
  then obtain k where k: "k \<le> 30" "n = 2 ^ k" unfolding pow2_iff by blast
  then have "(2::int) ^ k \<le> 2 ^ 30" by (intro power_increasing) auto
  with k show ?thesis by simp
qed

lemma custom_write_ok:
  assumes wf: "well_formed c"
    and len: "0 \<le> len"
    and data: "NUL \<in> set data"
    and room: "total_bytes_written c + len < capacity c \<or>
               (mem = Fresh g \<and> total_bytes_written c + len \<le> 2 ^ 30 \<and>
                \<not> pow2 (total_bytes_written c + len))"
  shows "\<exists>c' s0. custom_write mem c data len =
             Some (Inr (c', ''['' @ show_int (total_bytes_written c + len) @ ''] '' @
                             takeWhile (\<lambda>c. c \<noteq> NUL) data, len)) \<and>
           well_formed c' \<and> total_bytes_written c' = total_bytes_written c + len \<and>
           buffered c = Inr s0 \<and>
           buffered c' = Inr (s0 @ takeWhile (\<lambda>c. c \<noteq> NUL) (take (nat len) data))"
proof -
  from wf obtain b where b: "buffer c = Some b" "NUL \<in> set b" "int (length b) = capacity c"
    "int (length (takeWhile (\<lambda>c. c \<noteq> NUL) b)) \<le> total_bytes_written c"
    "total_bytes_written c < capacity c" "pow2 (capacity c)" "16 \<le> capacity c"
    by (rule well_formedE)
  define t where "t = total_bytes_written c"
  define s0 where "s0 = takeWhile (\<lambda>c. c \<noteq> NUL) b"
  define s where "s = takeWhile (\<lambda>c. c \<noteq> NUL) (take (nat len) data)"
  have t0: "0 \<le> t" using b(4) unfolding t_def by linarith
  have cap30: "capacity c \<le> 2 ^ 30" using b(6) by (rule pow2_le)
  have n30: "t + len \<le> 2 ^ 30" using room cap30 unfolding t_def by auto
  have int_n: "is_int (t + len)" using n30 t0 len by (simp add: is_int_def)
  have int_len: "is_int len" using n30 t0 len by (simp add: is_int_def)
  have w: "wrap_int (t + len) = t + len" using int_n by (rule wrap_int_id)
  have sz: "size_t len = nat len" using len int_len by (rule size_t_nat)
  have cd: "c_string data = Inr (takeWhile (\<lambda>c. c \<noteq> NUL) data)"
    using data by (simp add: c_string_def)
  have bufc: "buffered c = Inr s0"
    using b(1,2) by (simp add: buffered_def c_string_at_def c_string_def s0_def)
  define c1 where "c1 = c\<lparr>total_bytes_written := t + len\<rparr>"
  have "\<exists>c2 b'. resize_buffer mem c1 = Some c2 \<and> buffer c2 = Some b' \<and> NUL \<in> set b' \<and>
          takeWhile (\<lambda>c. c \<noteq> NUL) b' = s0 \<and> int (length b') = capacity c2 \<and>
          t + len < capacity c2 \<and> pow2 (capacity c2) \<and> 16 \<le> capacity c2 \<and>
          total_bytes_written c2 = t + len"
  proof (cases "t + len < capacity c")
    case True
    then have "resize_buffer mem c1 = Some c1"
      by (simp add: resize_buffer_def c1_def)
    with True b show ?thesis by (simp add: c1_def s0_def)
  next
    case False
    with room have g: "mem = Fresh g" and np: "\<not> pow2 (t + len)" by (auto simp: t_def)
    from next_power_of_two_small [OF n30] obtain m where m: "m \<le> 30"
      "next_power_of_two (t + len) = Some (2 ^ m)" "t + len \<le> 2 ^ m" by blast
    from np m(1) have "t + len \<noteq> 2 ^ m" unfolding pow2_iff by blast
    with m(3) have lt: "t + len < 2 ^ m" by simp
    have szm: "size_t (2 ^ m) = 2 ^ m"
      using size_t_nat [OF _ pow2_is_int [OF m(1)]] by (simp add: nat_power_eq)
    have lb: "length b \<le> 2 ^ m"
    proof -
      have "int (length b) \<le> 2 ^ m" using False lt b(3) by linarith
      then show ?thesis by (metis of_nat_le_iff of_nat_numeral of_nat_power)
    qed
    define b' where "b' = b @ map g [length b..<2 ^ m]"
    have re: "realloc mem (Some b) (size_t (2 ^ m)) = Some b'"
      using lb by (simp add: realloc_def g szm b'_def)
    have r: "resize_buffer mem c1 = Some (c1\<lparr>capacity := 2 ^ m, buffer := Some b'\<rparr>)"
      using False m(2) re b(1) by (simp add: resize_buffer_def c1_def)
    have "length b' = 2 ^ m" using lb by (simp add: b'_def)
    then have l': "int (length b') = 2 ^ m" by simp
    have tw: "takeWhile (\<lambda>c. c \<noteq> NUL) b' = s0"
      unfolding b'_def s0_def using b(2) by (intro takeWhile_append1 [of NUL]) auto
    have "pow2 (2 ^ m)" using m(1) unfolding pow2_iff by blast
    moreover have "(16::int) \<le> 2 ^ m" using False lt b(7) by linarith
    moreover have "NUL \<in> set b'" using b(2) by (simp add: b'_def)
    ultimately show ?thesis using r l' tw lt by (simp add: c1_def)
  qed
  then obtain c2 b' where c2: "resize_buffer mem c1 = Some c2" "buffer c2 = Some b'"
    "NUL \<in> set b'" "takeWhile (\<lambda>c. c \<noteq> NUL) b' = s0" "int (length b') = capacity c2"
    "t + len < capacity c2" "pow2 (capacity c2)" "16 \<le> capacity c2"
    "total_bytes_written c2 = t + len"
    by blast
  have e': "int (length (takeWhile (\<lambda>c. c \<noteq> NUL) b')) \<le> t"
    using b(4) c2(4) by (simp add: s0_def t_def)
  from append_ok [OF c2(3) e' len _ data] c2(5,6)
  obtain b1 b2 where bb: "strncat (Some b') data (nat len) = Inr b1"
    "store_char b1 (t + len) NUL = Inr b2" "length b2 = length b'"
    "c_string b2 = Inr (s0 @ s)"
    unfolding c2(4) s_def by auto
  define c' where "c' = c2\<lparr>buffer := Some b2\<rparr>"
  have tc1: "total_bytes_written c1 = t + len" by (simp add: c1_def)
  have run: "custom_write mem c data len =
      Some (Inr (c', ''['' @ show_int (t + len) @ ''] '' @ takeWhile (\<lambda>c. c \<noteq> NUL) data, len))"
    using c2(1,2,9) bb(1,2) cd tc1
    by (simp add: custom_write_def Let_def w sz t_def [symmetric] c1_def [symmetric] c'_def)
  have nulb2: "NUL \<in> set b2" using bb(4) by (auto simp: c_string_def split: if_splits)
  have tw2: "takeWhile (\<lambda>c. c \<noteq> NUL) b2 = s0 @ s"
    using bb(4) by (auto simp: c_string_def split: if_splits)
  have ls: "length s \<le> nat len"
    unfolding s_def by (rule order_trans [OF length_takeWhile_le]) simp
  have "int (length (s0 @ s)) \<le> t + len"
    using b(4) ls len by (simp add: s0_def t_def)
  then have wf': "well_formed c'"
    using c2 bb(3) nulb2 tw2 by (simp add: well_formed_def c'_def)
  have "buffered c' = Inr (s0 @ s)"
    using bb(4) by (simp add: buffered_def c'_def c_string_at_def)
  with run wf' bufc c2(9) show ?thesis
    unfolding t_def s_def c'_def by auto
qed




lemma pow2_16: "pow2 16"
  unfolding pow2_iff by (rule exI [of _ 4]) simp

lemma custom_file_handle_payload:
  assumes "custom_file_handle lib mem = Inr (h, c0)"
  shows "total_bytes_written c0 = 0" "capacity c0 = 16" "well_formed c0"
proof -
  from assms obtain g where c0: "c0 = \<lparr>total_bytes_written = 0, capacity = 16,
      buffer = Some ((map g [0..<16])[0 := NUL])\<rparr>"
    by (auto simp: custom_file_handle_def Let_def malloc_def store_char_def
        split: if_splits option.splits sum.splits alloc.splits)
  show "total_bytes_written c0 = 0" "capacity c0 = 16" by (simp_all add: c0)
  have "[0..<16] = 0 # [1..<16]" by (simp add: upt_rec)
  then have *: "(map g [0..<16])[0 := NUL] = NUL # map g [1..<16]" by simp
  show "well_formed c0"
    unfolding well_formed_def c0 by (simp add: * pow2_16)
qed

lemma step_capacity:
  assumes p: "pow2 (capacity c)"
    and call: "custom_write mem c data len = Some (Inr (c', out, r))"
  shows "pow2 (capacity c')"
    "capacity c < total_bytes_written c' \<Longrightarrow>
       \<exists>m. capacity c' = 2 ^ m \<and> total_bytes_written c' \<le> 2 ^ m \<and>
           (\<forall>i. total_bytes_written c' \<le> 2 ^ i \<longrightarrow> m \<le> i)"
    "total_bytes_written c' \<le> capacity c \<Longrightarrow> capacity c' = capacity c"
proof -
  define n where "n = total_bytes_written c'"
  note ret = custom_write_returns [OF call]
  have int_n: "is_int n" unfolding n_def ret(2) by (rule wrap_int_is_int)
  have grown: "\<exists>m\<le>30. capacity c' = 2 ^ m \<and> n \<le> 2 ^ m \<and> (\<forall>i. n \<le> 2 ^ i \<longrightarrow> m \<le> i)"
    if "capacity c \<le> n"
  proof -
    from ret(3) that have np: "next_power_of_two n = Some (capacity c')" by (simp add: n_def)
    have "n \<le> 2 ^ 30"
    proof (rule ccontr)
      assume "\<not> n \<le> 2 ^ 30"
      then have "next_power_of_two n = None" using int_n by (intro next_power_of_two_big) simp
      with np show False by simp
    qed
    from next_power_of_two_small [OF this] np obtain m where m: "m \<le> 30"
      "capacity c' = 2 ^ m" "n \<le> 2 ^ m" "0 < m \<longrightarrow> 2 ^ (m - 1) < n"
      by auto
    have "\<forall>i. n \<le> 2 ^ i \<longrightarrow> m \<le> i" using pow2_least [OF m(4)] by blast
    with m show ?thesis by blast
  qed
  show "pow2 (capacity c')"
  proof (cases "capacity c \<le> n")
    case True
    from grown [OF this] show ?thesis unfolding pow2_iff by blast
  next
    case False
    then show ?thesis using ret(4) p by (simp add: n_def)
  qed
  show "\<exists>m. capacity c' = 2 ^ m \<and> total_bytes_written c' \<le> 2 ^ m \<and>
           (\<forall>i. total_bytes_written c' \<le> 2 ^ i \<longrightarrow> m \<le> i)"
    if "capacity c < total_bytes_written c'"
    using grown that unfolding n_def by fastforce
  show "capacity c' = capacity c" if le: "total_bytes_written c' \<le> capacity c"
  proof (cases "n < capacity c")
    case True
    then show ?thesis using ret(4) by (simp add: n_def)
  next
    case False
    with le have eq: "capacity c = n" by (simp add: n_def)
    from p obtain k where k: "k \<le> 30" "capacity c = 2 ^ k" unfolding pow2_iff by blast
    from grown obtain m where m: "capacity c' = 2 ^ m" "n \<le> 2 ^ m" "\<forall>i. n \<le> 2 ^ i \<longrightarrow> m \<le> i"
      using eq by auto
    from m(3) eq k(2) have "m \<le> k" by simp
    then have "(2::int) ^ m \<le> 2 ^ k" by (intro power_increasing) auto
    with m(1,2) eq k(2) show ?thesis by simp
  qed
qed

lemma custom_flush_returns:
  assumes "custom_flush mem c = Inr (c', out, r)"
  shows "r = 0" "total_bytes_written c' = 0" "capacity c' = 16" "buffer c' = malloc mem 16"
    "\<exists>s. buffered c = Inr s \<and> out = ''[BEGIN FLUSH]'' @ s @ ''[END FLUSH]''"
  using assms by (auto simp: custom_flush_def buffered_def split: sum.splits)

lemma run_capacity:
  "pow2 (capacity c) \<Longrightarrow> run c cs = Some (Inr (c', outs)) \<Longrightarrow> pow2 (capacity c')"
proof (induction cs arbitrary: c outs)
  case Nil
  then show ?case by simp
next
  case (Cons x cs)
  show ?case
  proof (cases x)
    case (Write mem data len)
    with Cons.prems(2) obtain c1 o1 r1 o2 where
      "custom_write mem c data len = Some (Inr (c1, o1, r1))" "run c1 cs = Some (Inr (c', o2))"
      by (auto split: option.splits sum.splits)
    with Cons.IH step_capacity(1) [OF Cons.prems(1)] show ?thesis by blast
  next
    case (Flush mem)
    with Cons.prems(2) obtain c1 o1 r1 o2 where
      "custom_flush mem c = Inr (c1, o1, r1)" "run c1 cs = Some (Inr (c', o2))"
      by (auto split: option.splits sum.splits)
    with Cons.IH custom_flush_returns(3) pow2_16 show ?thesis by metis
  qed
qed

lemma resize_capacity:
  assumes p: "pow2 (capacity c)" and b: "t \<le> 2 ^ 30"
  shows "\<exists>c2. resize_buffer mem (c\<lparr>total_bytes_written := t\<rparr>) = Some c2 \<and>
           total_bytes_written c2 = t \<and>
           (capacity c < t \<longrightarrow>
              (\<exists>m. capacity c2 = 2 ^ m \<and> t \<le> 2 ^ m \<and> (\<forall>i. t \<le> 2 ^ i \<longrightarrow> m \<le> i))) \<and>
           (t \<le> capacity c \<longrightarrow> capacity c2 = capacity c)"
proof (cases "capacity c \<le> t")
  case False
  then show ?thesis by (simp add: resize_buffer_def)
next
  case True
  from next_power_of_two_small [OF b] obtain m where m: "m \<le> 30"
    "next_power_of_two t = Some (2 ^ m)" "t \<le> 2 ^ m" "0 < m \<longrightarrow> 2 ^ (m - 1) < t"
    by blast
  have least: "\<forall>i. t \<le> 2 ^ i \<longrightarrow> m \<le> i" using pow2_least [OF m(4)] by blast
  define c2 where "c2 = c\<lparr>total_bytes_written := t, capacity := 2 ^ m,
    buffer := realloc mem (buffer c) (size_t (2 ^ m))\<rparr>"
  have r: "resize_buffer mem (c\<lparr>total_bytes_written := t\<rparr>) = Some c2"
    using True m(2) by (simp add: resize_buffer_def c2_def)
  have same: "capacity c2 = capacity c" if "t \<le> capacity c"
  proof -
    from that True have eq: "capacity c = t" by simp
    from p obtain k where k: "k \<le> 30" "capacity c = 2 ^ k" unfolding pow2_iff by blast
    from least eq k(2) have "m \<le> k" by simp
    then have "(2::int) ^ m \<le> 2 ^ k" by (intro power_increasing) auto
    with m(3) eq k(2) show ?thesis by (simp add: c2_def)
  qed
  have "capacity c2 = 2 ^ m" "total_bytes_written c2 = t" by (simp_all add: c2_def)
  with r m(3) least same show ?thesis by blast
qed

lemma custom_write_resize:
  assumes "custom_write mem c data len = Some (Inr (c', out, r))"
  shows "\<exists>c2. resize_buffer mem
             (c\<lparr>total_bytes_written := wrap_int (total_bytes_written c + len)\<rparr>) = Some c2 \<and>
           capacity c' = capacity c2 \<and> total_bytes_written c' = total_bytes_written c2"
  using assms
  by (auto simp: custom_write_def Let_def split: sum.splits option.splits)

text \<open>
  C3 (as amended): for the demo variant, starting from the capacity 16 that
  \<open>custom_file_handle\<close> sets and after any history of calls that returned, whenever a
  write makes the accumulated size exceed the current capacity and the accumulated size is
  at most \<open>2 ^ 30\<close>, the resize of \<open>custom_write\<close> sets the capacity to the smallest power
  of two greater than or equal to the accumulated size, and a write that keeps the
  accumulated size within the current capacity leaves the capacity unchanged; a call that
  returns leaves the payload with this capacity. The witness is the write of 20 bytes to
  the new payload, which yields capacity 32.
\<close>

theorem custom_write_capacity:
  assumes start: "custom_file_handle lib mem0 = Inr (h, c0)"
    and history: "run c0 cs = Some (Inr (c, outs))"
    and bound: "wrap_int (total_bytes_written c + len) \<le> 2 ^ 30"
  shows "\<exists>c2. resize_buffer mem
             (c\<lparr>total_bytes_written := wrap_int (total_bytes_written c + len)\<rparr>) = Some c2 \<and>
           (capacity c < total_bytes_written c2 \<longrightarrow>
              (\<exists>m. capacity c2 = 2 ^ m \<and> total_bytes_written c2 \<le> 2 ^ m \<and>
                   (\<forall>i. total_bytes_written c2 \<le> 2 ^ i \<longrightarrow> m \<le> i))) \<and>
           (total_bytes_written c2 \<le> capacity c \<longrightarrow> capacity c2 = capacity c) \<and>
           (\<forall>c' out r. custom_write mem c data len = Some (Inr (c', out, r)) \<longrightarrow>
              capacity c' = capacity c2 \<and> total_bytes_written c' = total_bytes_written c2)"
proof -
  define t where "t = wrap_int (total_bytes_written c + len)"
  have "pow2 (capacity c0)" using custom_file_handle_payload(2) [OF start] pow2_16 by simp
  then have p: "pow2 (capacity c)" using history by (rule run_capacity)
  have "t \<le> 2 ^ 30" using bound by (simp add: t_def)
  from resize_capacity [OF p this, of mem] obtain c2 where
    r: "resize_buffer mem (c\<lparr>total_bytes_written := t\<rparr>) = Some c2"
    and tc: "total_bytes_written c2 = t"
    and grow: "capacity c < t \<longrightarrow>
       (\<exists>m. capacity c2 = 2 ^ m \<and> t \<le> 2 ^ m \<and> (\<forall>i. t \<le> 2 ^ i \<longrightarrow> m \<le> i))"
    and keep: "t \<le> capacity c \<longrightarrow> capacity c2 = capacity c"
    by (elim exE conjE)
  have link: "\<forall>c' out r. custom_write mem c data len = Some (Inr (c', out, r)) \<longrightarrow>
      capacity c' = capacity c2 \<and> total_bytes_written c' = total_bytes_written c2"
  proof (intro allI impI)
    fix c' out r
    assume "custom_write mem c data len = Some (Inr (c', out, r))"
    from custom_write_resize [OF this] obtain c3 where
      "resize_buffer mem (c\<lparr>total_bytes_written := t\<rparr>) = Some c3"
      "capacity c' = capacity c3" "total_bytes_written c' = total_bytes_written c3"
      unfolding t_def by (elim exE conjE)
    with r show "capacity c' = capacity c2 \<and> total_bytes_written c' = total_bytes_written c2"
      by simp
  qed
  have tc': "t = total_bytes_written c2" using tc by simp
  show ?thesis
    unfolding t_def [symmetric]
  proof (intro exI [of _ c2] conjI)
    show "resize_buffer mem (c\<lparr>total_bytes_written := t\<rparr>) = Some c2" by (rule r)
    show "capacity c < total_bytes_written c2 \<longrightarrow>
       (\<exists>m. capacity c2 = 2 ^ m \<and> total_bytes_written c2 \<le> 2 ^ m \<and>
            (\<forall>i. total_bytes_written c2 \<le> 2 ^ i \<longrightarrow> m \<le> i))"
      using grow unfolding tc .
    show "total_bytes_written c2 \<le> capacity c \<longrightarrow> capacity c2 = capacity c"
      using keep unfolding tc .
    show "\<forall>c' out r. custom_write mem c data len = Some (Inr (c', out, r)) \<longrightarrow>
      capacity c' = capacity c2 \<and> total_bytes_written c' = total_bytes_written c2"
      by (rule link)
  qed
qed

theorem custom_write_capacity_witness:
  "custom_file_handle demo_library dirty = Inr (4096, fresh_payload) \<and>
   run fresh_payload [] = Some (Inr (fresh_payload, [])) \<and>
   wrap_int (total_bytes_written fresh_payload + 20) \<le> 2 ^ 30 \<and>
   custom_write dirty fresh_payload (''abcdefghijklmnopqrst'' @ [NUL]) 20 =
     Some (Inr (grown_payload, ''[20] abcdefghijklmnopqrst'', 20)) \<and>
   capacity fresh_payload < total_bytes_written grown_payload \<and>
   capacity grown_payload = 32 \<and>
   (\<exists>m. capacity grown_payload = 2 ^ m \<and> total_bytes_written grown_payload \<le> 2 ^ m \<and>
        (\<forall>i. total_bytes_written grown_payload \<le> 2 ^ i \<longrightarrow> m \<le> i))"
proof -
  have h1: "custom_file_handle demo_library dirty = Inr (4096, fresh_payload)"
    by code_simp
  have h2: "run fresh_payload [] = Some (Inr (fresh_payload, []))"
    by simp
  have h3: "wrap_int (total_bytes_written fresh_payload + 20) \<le> 2 ^ 30"
    by code_simp
  have h4: "custom_write dirty fresh_payload (''abcdefghijklmnopqrst'' @ [NUL]) 20 =
     Some (Inr (grown_payload, ''[20] abcdefghijklmnopqrst'', 20))"
    by code_simp
  have lt: "capacity fresh_payload < total_bytes_written grown_payload"
    by (simp add: fresh_payload_def grown_payload_def)
  from custom_write_capacity [OF h1 h2 h3, of dirty "''abcdefghijklmnopqrst'' @ [NUL]"]
  obtain c2 :: CustomFileHandle where c2:
    "capacity fresh_payload < total_bytes_written c2 \<longrightarrow>
       (\<exists>m. capacity c2 = 2 ^ m \<and> total_bytes_written c2 \<le> 2 ^ m \<and>
            (\<forall>i. total_bytes_written c2 \<le> 2 ^ i \<longrightarrow> m \<le> i))"
    "\<forall>c' out r. custom_write dirty fresh_payload (''abcdefghijklmnopqrst'' @ [NUL]) 20 =
        Some (Inr (c', out, r)) \<longrightarrow>
        capacity c' = capacity c2 \<and> total_bytes_written c' = total_bytes_written c2"
    by blast
  from c2(2) h4 have eq: "capacity grown_payload = capacity c2"
    "total_bytes_written grown_payload = total_bytes_written c2" by auto
  with c2(1) lt have "\<exists>m. capacity grown_payload = 2 ^ m \<and> total_bytes_written grown_payload \<le> 2 ^ m \<and>
        (\<forall>i. total_bytes_written grown_payload \<le> 2 ^ i \<longrightarrow> m \<le> i)"
    by simp
  moreover have "capacity grown_payload = 32" by (simp add: grown_payload_def)
  ultimately show ?thesis using h1 h2 h3 h4 lt by blast
qed

text \<open>
  C3 as stated fails: a write that takes the accumulated size to \<open>2 ^ 30 + 1\<close> exceeds
  the capacity 16, but no \<open>int\<close> is a power of two that large; the resize runs
  \<open>next_power_of_two\<close> forever and the capacity never changes.
\<close>

theorem custom_write_capacity_overflow:
  "resize_buffer dirty (fresh_payload\<lparr>total_bytes_written := wrap_int (0 + 1073741825)\<rparr>) = None \<and>
   custom_write dirty fresh_payload (''x'' @ [NUL]) 1073741825 = None"
proof -
  have w: "wrap_int (0 + 1073741825) = 1073741825" by (simp add: wrap_int_def)
  have n: "next_power_of_two 1073741825 = None"
    using next_power_of_two_big [of 1073741825] by (simp add: is_int_def)
  have r: "resize_buffer dirty (fresh_payload\<lparr>total_bytes_written := 1073741825\<rparr>) = None"
    by (simp add: resize_buffer_def fresh_payload_def n)
  have "custom_write dirty fresh_payload (''x'' @ [NUL]) 1073741825 = None"
    using r by (simp add: custom_write_def Let_def c_string_def fresh_payload_def wrap_int_def)
  with r w show ?thesis by simp
qed

text \<open>
  C10 fails on the code: a write of 16 bytes to the new payload makes the counter 16, the
  resize keeps the capacity at \<open>next_power_of_two (16) = 16\<close>, and the terminator goes to
  index 16 of a block of 16 bytes.
\<close>

theorem custom_write_terminator_outside:
  "map_option (\<lambda>c. (total_bytes_written c, capacity c))
     (resize_buffer dirty (fresh_payload\<lparr>total_bytes_written := wrap_int (0 + 16)\<rparr>)) =
     Some (16, 16) \<and>
   custom_write dirty fresh_payload (''abcdefghijklmnop'' @ [NUL]) 16 = Some (Inl OutOfBounds)"
  by code_simp




section \<open>Sequences of calls\<close>

lemma wrap_int_add: "wrap_int (wrap_int a + b) = wrap_int (a + b)"
  by (simp add: wrap_int_def mod_simps algebra_simps)

lemma after_last_flush_all: "\<not> list_ex is_flush cs \<Longrightarrow> after_last_flush cs = cs"
  by (induction cs) auto

lemma run_counter:
  assumes "is_int (total_bytes_written c)" "run c cs = Some (Inr (c', out))"
  shows "total_bytes_written c' =
    wrap_int ((if list_ex is_flush cs then 0 else total_bytes_written c) +
              sum_list (map write_len (after_last_flush cs)))"
  using assms
proof (induction cs arbitrary: c out)
  case Nil
  then show ?case by (simp add: wrap_int_id)
next
  case (Cons x cs)
  show ?case
  proof (cases x)
    case (Write mem data len)
    with Cons.prems(2) obtain c1 o1 r1 o2 where
      w: "custom_write mem c data len = Some (Inr (c1, o1, r1))" and r: "run c1 cs = Some (Inr (c', o2))"
      by (auto split: option.splits sum.splits)
    have t1: "total_bytes_written c1 = wrap_int (total_bytes_written c + len)"
      using custom_write_returns(2) [OF w] .
    then have "is_int (total_bytes_written c1)" by (simp add: wrap_int_is_int)
    from Cons.IH [OF this r] show ?thesis
      using Write t1 by (auto simp: after_last_flush_all wrap_int_add add.assoc)
  next
    case (Flush mem)
    with Cons.prems(2) obtain c1 o1 r1 o2 where
      f: "custom_flush mem c = Inr (c1, o1, r1)" and r: "run c1 cs = Some (Inr (c', o2))"
      by (auto split: option.splits sum.splits)
    have t1: "total_bytes_written c1 = 0" using custom_flush_returns(2) [OF f] .
    then have "is_int (total_bytes_written c1)" by (simp add: is_int_def)
    from Cons.IH [OF this r] show ?thesis
      using Flush t1 by (auto simp: after_last_flush_all)
  qed
qed

text \<open>A safe sequence of calls on a well-formed payload returns.\<close>

lemma custom_flush_well_formed:
  assumes "well_formed c" "g 0 = NUL"
  shows "\<exists>c' out. custom_flush (Fresh g) c = Inr (c', out, 0) \<and> well_formed c' \<and>
           total_bytes_written c' = 0 \<and> capacity c' = 16"
proof -
  from assms(1) obtain b where b: "buffer c = Some b" "NUL \<in> set b" by (rule well_formedE)
  have "[0..<16] = 0 # [1..<16]" by (simp add: upt_rec)
  then have *: "map g [0..<16] = NUL # map g [1..<16]" using assms(2) by simp
  have "well_formed (c\<lparr>total_bytes_written := 0, buffer := malloc (Fresh g) 16, capacity := 16\<rparr>)"
    unfolding well_formed_def by (simp add: malloc_def * pow2_16)
  then show ?thesis using b
    by (simp add: custom_flush_def c_string_at_def c_string_def)
qed

lemma run_returns:
  "well_formed c \<Longrightarrow> safe_calls (total_bytes_written c) (capacity c) cs \<Longrightarrow>
     \<exists>c' out. run c cs = Some (Inr (c', out)) \<and> well_formed c'"
proof (induction cs arbitrary: c)
  case Nil
  then show ?case by simp
next
  case (Cons x cs)
  show ?case
  proof (cases x)
    case (Write mem data len)
    with Cons.prems(2) have len: "0 \<le> len" and data: "NUL \<in> set data" by simp_all
    obtain g where room: "total_bytes_written c + len < capacity c \<or>
        (mem = Fresh g \<and> total_bytes_written c + len \<le> 2 ^ 30 \<and>
         \<not> pow2 (total_bytes_written c + len))"
      using Cons.prems(2) Write by (cases mem) (auto split: if_splits)
    from custom_write_ok [OF Cons.prems(1) len data room] obtain c1 o1 where
      w: "custom_write mem c data len = Some (Inr (c1, o1, len))" and wf1: "well_formed c1"
      and t1: "total_bytes_written c1 = total_bytes_written c + len"
      by blast
    note ret = custom_write_returns [OF w]
    have "safe_calls (total_bytes_written c1) (capacity c1) cs"
    proof (cases "total_bytes_written c + len < capacity c")
      case True
      with ret(4) t1 Cons.prems(2) Write show ?thesis by simp
    next
      case False
      with ret(3) t1 have "next_power_of_two (total_bytes_written c + len) = Some (capacity c1)"
        by simp
      with False t1 Cons.prems(2) Write show ?thesis by simp
    qed
    from Cons.IH [OF wf1 this] obtain c' o2 where
      "run c1 cs = Some (Inr (c', o2))" "well_formed c'" by blast
    with w Write show ?thesis by simp
  next
    case (Flush mem)
    with Cons.prems(2) obtain g where g: "mem = Fresh g" "g 0 = NUL" and s: "safe_calls 0 16 cs"
      by (cases mem) auto
    from custom_flush_well_formed [of c g, OF Cons.prems(1) g(2)] obtain c1 o1 where
      f: "custom_flush (Fresh g) c = Inr (c1, o1, 0)" and wf1: "well_formed c1"
      and t1: "total_bytes_written c1 = 0" "capacity c1 = 16"
      by blast
    from Cons.IH [OF wf1] s t1 obtain c' o2 where
      "run c1 cs = Some (Inr (c', o2))" "well_formed c'" by auto
    with f Flush g show ?thesis by simp
  qed
qed

text \<open>
  What the counter holds: on a newly constructed handle every safe sequence of write and
  flush calls returns, and after any sequence of calls that returned
  \<open>total_bytes_written\<close> is the sum of the length arguments of the write calls made
  since the last flush (since construction when there was none), taken in \<open>int\<close>
  arithmetic. Without a flush, writing 2 bytes and then 3 bytes leaves the counter at 5.
\<close>

lemma counter_since_last_flush:
  assumes "custom_file_handle lib mem0 = Inr (h, c0)"
  shows "(safe_calls 0 16 cs \<longrightarrow> (\<exists>c out. run c0 cs = Some (Inr (c, out)))) \<and>
         (\<forall>c out. run c0 cs = Some (Inr (c, out)) \<longrightarrow>
            total_bytes_written c = wrap_int (sum_list (map write_len (after_last_flush cs))))"
proof -
  note c0 = custom_file_handle_payload [OF assms]
  have "\<exists>c out. run c0 cs = Some (Inr (c, out))" if "safe_calls 0 16 cs"
    using run_returns [OF c0(3)] that c0(1,2) by fastforce
  moreover have "total_bytes_written c = wrap_int (sum_list (map write_len (after_last_flush cs)))"
    if "run c0 cs = Some (Inr (c, out))" for c out
  proof -
    have "is_int (total_bytes_written c0)" using c0(1) by (simp add: is_int_def)
    from run_counter [OF this that] c0(1) show ?thesis by simp
  qed
  ultimately show ?thesis by blast
qed

lemma counter_two_writes:
  "custom_file_handle demo_library dirty = Inr (4096, fresh_payload) \<and>
   safe_calls 0 16 [Write dirty (''ab'' @ [NUL]) 2, Write dirty (''cde'' @ [NUL]) 3] \<and>
   run fresh_payload [Write dirty (''ab'' @ [NUL]) 2, Write dirty (''cde'' @ [NUL]) 3] =
     Some (Inr (\<lparr>total_bytes_written = 5, capacity = 16,
                 buffer = Some (''abcde'' @ [NUL] @ replicate 10 (CHR ''X''))\<rparr>,
                ''[2] ab[5] cde'')) \<and>
   total_bytes_written
     \<lparr>total_bytes_written = 5, capacity = 16,
      buffer = Some (''abcde'' @ [NUL] @ replicate 10 (CHR ''X''))\<rparr> =
     wrap_int (sum_list (map write_len (after_last_flush
       [Write dirty (''ab'' @ [NUL]) 2, Write dirty (''cde'' @ [NUL]) 3]))) \<and>
   wrap_int (sum_list (map write_len (after_last_flush
     [Write dirty (''ab'' @ [NUL]) 2, Write dirty (''cde'' @ [NUL]) 3]))) = 5"
proof -
  let ?cs = "[Write dirty (''ab'' @ [NUL]) 2, Write dirty (''cde'' @ [NUL]) 3]"
  let ?c = "\<lparr>total_bytes_written = 5, capacity = 16,
      buffer = Some (''abcde'' @ [NUL] @ replicate 10 (CHR ''X''))\<rparr>"
  have h1: "custom_file_handle demo_library dirty = Inr (4096, fresh_payload)"
    by code_simp
  have h2: "safe_calls 0 16 ?cs"
    by code_simp
  have h3: "run fresh_payload ?cs = Some (Inr (?c, ''[2] ab[5] cde''))"
    by code_simp
  from counter_since_last_flush [OF h1, of ?cs] h3
  have "total_bytes_written ?c = wrap_int (sum_list (map write_len (after_last_flush ?cs)))"
    by blast
  moreover have "wrap_int (sum_list (map write_len (after_last_flush ?cs))) = 5"
    by code_simp
  ultimately show ?thesis using h1 h2 h3 by blast
qed

text \<open>
  C4 fails on the code: \<open>custom_flush\<close> (line 156) sets \<open>total_bytes_written\<close> back
  to 0, because the counter is also the index at which \<open>custom_write\<close> terminates the
  buffer. After writing 2 bytes, flushing and writing 3 bytes on a newly constructed handle
  the counter is 3 and the third write is echoed with the prefix \<open>[3]\<close>, where the sum of
  the lengths of the writes since construction, which is the cumulative number of bytes
  written that the comment on \<open>CustomFileHandle\<close> (lines 99-100) announces as the prefix,
  is 5.
\<close>

theorem counter_reset_by_flush:
  "custom_file_handle demo_library dirty = Inr (4096, fresh_payload) \<and>
   run fresh_payload
     [Write dirty (''ab'' @ [NUL]) 2, Flush clean, Write dirty (''cde'' @ [NUL]) 3] =
     Some (Inr (\<lparr>total_bytes_written = 3, capacity = 16,
                 buffer = Some (''cde'' @ replicate 13 NUL)\<rparr>,
                ''[2] ab[BEGIN FLUSH]ab[END FLUSH][3] cde'')) \<and>
   sum_list (map write_len
     [Write dirty (''ab'' @ [NUL]) 2, Flush clean, Write dirty (''cde'' @ [NUL]) 3]) = 5"
  by code_simp

lemma custom_flush_ok:
  assumes "buffered c = Inr s"
  shows "\<exists>c'. custom_flush mem c = Inr (c', ''[BEGIN FLUSH]'' @ s @ ''[END FLUSH]'', 0) \<and>
           total_bytes_written c' = 0 \<and> capacity c' = 16 \<and> buffer c' = malloc mem 16"
  using assms by (simp add: custom_flush_def buffered_def)

text \<open>
  C5 fails on the code: \<open>custom_flush\<close> stores no terminator into the block it gets from
  \<open>malloc\<close>, so the buffered content after a flush is whatever the block holds (here
  \<open>X\<close>), and the next flush emits \<open>Xa\<close> where \<open>ab\<close> was written since the last flush.
\<close>

theorem custom_flush_leaves_stale_content:
  "custom_flush stale fresh_payload =
     Inr (\<lparr>total_bytes_written = 0, capacity = 16,
           buffer = Some (CHR ''X'' # replicate 15 NUL)\<rparr>,
          ''[BEGIN FLUSH][END FLUSH]'', 0) \<and>
   buffered \<lparr>total_bytes_written = 0, capacity = 16,
             buffer = Some (CHR ''X'' # replicate 15 NUL)\<rparr> = Inr ''X'' \<and>
   run fresh_payload [Flush stale, Write dirty (''ab'' @ [NUL]) 2, Flush clean] =
     Some (Inr (\<lparr>total_bytes_written = 0, capacity = 16, buffer = Some (replicate 16 NUL)\<rparr>,
                ''[BEGIN FLUSH][END FLUSH][2] ab[BEGIN FLUSH]Xa[END FLUSH]''))"
  by code_simp

section \<open>The builder\<close>

lemma round_up_dvd: "a dvd round_up n a"
  by (simp add: round_up_def)

lemma pow2_dvd_max: "(2::nat) ^ k dvd max (2 ^ j) (2 ^ k)"
proof (cases "j \<le> k")
  case True
  then have "(2::nat) ^ j \<le> 2 ^ k" by (intro power_increasing) auto
  then show ?thesis by (simp add: max_def)
next
  case False
  then have "k \<le> j" by simp
  then have "(2::nat) ^ k dvd 2 ^ j" by (rule le_imp_power_dvd)
  moreover have "(2::nat) ^ k \<le> 2 ^ j" using \<open>k \<le> j\<close> by (intro power_increasing) auto
  ultimately show ?thesis by (simp add: max_def)
qed

text \<open>
  C1 (as amended): for every call to the builder with a payload alignment that is a power
  of two for which the allocation is satisfied (by a non-null block aligned as requested,
  the handle's own alignment being a power of two as well), the returned payload pointer
  is non-null and its address is a multiple of the payload alignment.
\<close>

theorem builder_place_aligned:
  assumes alloc: "lib_alloc lib (round_up (header_size lib) payload_alignment + payload_size)
                    (max (header_align lib) payload_alignment) = Some base"
    and nonnull: "base \<noteq> 0"
    and aligned: "max (header_align lib) payload_alignment dvd base"
    and pa: "payload_alignment = 2 ^ k"
    and ha: "header_align lib = 2 ^ j"
  shows "place (fst (new_file_handle_builder lib payload_size payload_alignment destroy write flush)) \<noteq> 0 \<and>
         payload_alignment dvd
           place (fst (new_file_handle_builder lib payload_size payload_alignment destroy write flush))"
proof -
  have p: "place (fst (new_file_handle_builder lib payload_size payload_alignment destroy write flush)) =
      base + round_up (header_size lib) payload_alignment"
    using alloc by (simp add: new_file_handle_builder_def Let_def)
  have "payload_alignment dvd max (header_align lib) payload_alignment"
    unfolding pa ha by (rule pow2_dvd_max)
  then have "payload_alignment dvd base" using aligned by (rule dvd_trans)
  moreover have "payload_alignment dvd round_up (header_size lib) payload_alignment"
    by (rule round_up_dvd)
  ultimately have "payload_alignment dvd base + round_up (header_size lib) payload_alignment"
    by (rule dvd_add)
  with nonnull p show ?thesis by simp
qed

theorem builder_place_aligned_witness:
  "lib_alloc demo_library (round_up (header_size demo_library) 8 + 16)
     (max (header_align demo_library) 8) = Some 4096 \<and>
   (4096::nat) \<noteq> 0 \<and> max (header_align demo_library) 8 dvd (4096::nat) \<and>
   (8::nat) = 2 ^ 3 \<and> header_align demo_library = 2 ^ 3 \<and>
   place (fst (new_file_handle_builder demo_library 16 8 Custom_destroy Custom_write Custom_flush)) \<noteq> 0 \<and>
   8 dvd place (fst (new_file_handle_builder demo_library 16 8 Custom_destroy Custom_write Custom_flush))"
proof -
  have h1: "lib_alloc demo_library (round_up (header_size demo_library) 8 + 16)
     (max (header_align demo_library) 8) = Some 4096"
    by (simp add: demo_library_def)
  have h2: "(4096::nat) \<noteq> 0" by simp
  have h3: "max (header_align demo_library) 8 dvd (4096::nat)" by (simp add: demo_library_def)
  have h4: "(8::nat) = 2 ^ 3" by simp
  have h5: "header_align demo_library = 2 ^ 3" by (simp add: demo_library_def)
  from builder_place_aligned [OF h1 h2 h3 h4 h5, of Custom_destroy Custom_write Custom_flush]
    h1 h2 h3 h5 show ?thesis by simp
qed

text \<open>
  C1 as stated fails: when the allocation cannot be satisfied the builder returns null
  pointers, and the first store of \<open>custom_file_handle\<close> through \<open>builder.place\<close> is a
  null dereference.
\<close>

theorem builder_out_of_memory:
  "fst (new_file_handle_builder exhausted_library 16 8 Custom_destroy Custom_write Custom_flush) =
     \<lparr>file_handle = 0, place = 0\<rparr> \<and>
   custom_file_handle exhausted_library dirty = Inl NullDeref"
  by code_simp

section \<open>The example programs\<close>













text \<open>
  C7 fails on the code: line 23 tests \<open>strcmp (argv[i], "--custom")\<close> without comparing
  it to 0, so the argument \<open>out.txt\<close> selects the custom handle and the argument
  \<open>--custom\<close> does not.
\<close>

theorem main_ffi_custom_flag:
  "parse_args (tl [''prog'', ''out.txt'']) False = Some True \<and>
   main_ffi echo_library [''prog'', ''out.txt''] [] =
     Some ([Opened Custom, Write_call greeting 13 13, Destroy], 0) \<and>
   parse_args (tl [''prog'', ''--custom'']) False = Some False \<and>
   main_ffi echo_library [''prog'', ''--custom''] [] =
     Some ([Opened (From_path ''--custom''), Write_call greeting 13 13, Destroy], 0)"
  by code_simp

text \<open>
  In example/main.c every run that has opened a handle ends with its only
  \<open>file_handle_destroy\<close>.
\<close>

lemma copy_stdin_destroys:
  "copy_stdin L h inp = Some (tr, code) \<Longrightarrow>
     \<exists>pre. tr = pre @ [Destroy] \<and> Destroy \<notin> set pre \<and> (\<forall>s. Opened s \<notin> set pre)"
proof (induction L h inp arbitrary: tr code rule: copy_stdin.induct)
  case (1 L h inp)
  show ?case
  proof (cases "fgets 1024 inp")
    case None
    with "1.prems" show ?thesis
      by (subst (asm) copy_stdin.simps) auto
  next
    case (Some x)
    obtain got rest where x: "x = (got, rest)" by (cases x)
    define str where "str = takeWhile (\<lambda>c. c \<noteq> NUL) got"
    from "1.prems" Some x obtain h' r where
      w: "file_handle_write L h (got @ [NUL]) (int (length str)) = Some (h', r)"
      by (subst (asm) copy_stdin.simps) (auto simp: str_def Let_def split: option.splits)
    show ?thesis
    proof (cases "r < 0")
      case True
      with "1.prems" Some x w have
        "tr = [Write_call str (int (length str)) r, copy_failed] @ [Destroy]"
        by (subst (asm) copy_stdin.simps) (auto simp: str_def Let_def copy_failed_def)
      then show ?thesis by (auto simp: copy_failed_def intro!: exI [of _ "[Write_call str (int (length str)) r, copy_failed]"])
    next
      case False
      with "1.prems" Some x w obtain tr1 where
        rec: "copy_stdin L h' rest = Some (tr1, code)"
        and tr: "tr = Write_call str (int (length str)) r # tr1"
        by (subst (asm) copy_stdin.simps) (auto simp: str_def Let_def)
      from "1.IH" [OF Some x [symmetric] str_def refl w refl False rec]
      obtain pre where "tr1 = pre @ [Destroy]" "Destroy \<notin> set pre" "\<forall>s. Opened s \<notin> set pre" by blast
      then show ?thesis using tr
        by (auto intro!: exI [of _ "Write_call str (int (length str)) r # pre"])
    qed
  qed
qed

lemma main_destroys_once:
  assumes run: "main L argv inp = Some (tr, code)" and opened: "Opened s \<in> set tr"
  shows "\<exists>pre. tr = pre @ [Destroy] \<and> Destroy \<notin> set pre"
proof -
  define src where "src = (if 1 < length argv then From_path (argv ! 1) else Stdout)"
  from run opened obtain h where
    g: "greet_then L src h (\<lambda>h'. copy_stdin L h' inp) = Some (tr, code)"
    by (auto simp: main_def Let_def src_def split: if_splits option.splits)
  then obtain h' r where w: "file_handle_write L h (greeting @ [NUL]) 13 = Some (h', r)"
    by (auto simp: greet_then_def split: option.splits)
  show ?thesis
  proof (cases "r = 13")
    case False
    with g w have "tr = [Opened src, Write_call greeting 13 r,
        Perror ''Unable to write a nice message''] @ [Destroy]"
      by (simp add: greet_then_def)
    then show ?thesis by (metis (no_types, lifting) event.distinct set_ConsD empty_iff empty_set)
  next
    case True
    with g w obtain tr1 where rec: "copy_stdin L h' inp = Some (tr1, code)"
      and tr: "tr = Opened src # Write_call greeting 13 r # tr1"
      by (auto simp: greet_then_def)
    from copy_stdin_destroys [OF rec] obtain pre where
      "tr1 = pre @ [Destroy]" "Destroy \<notin> set pre" by blast
    then show ?thesis using tr
      by (auto intro!: exI [of _ "Opened src # Write_call greeting 13 r # pre"])
  qed
qed

text \<open>
  C6 fails on the code of the ffi example: when a flush returns a non-zero status, line 90
  returns it without \<open>file_handle_destroy\<close>, unlike the two other error exits.
\<close>

theorem main_ffi_flush_failure_leaks:
  "main_ffi failing_flush_library [''prog''] ''flush'' =
     Some ([Opened Stdout, Write_call greeting 13 13, Write_call ''flush'' 5 5, Flush_call 5,
            Perror ''Flushing failed''], 5) \<and>
   Destroy \<notin> set [Opened Stdout, Write_call greeting 13 13, Write_call ''flush'' 5 5,
                   Flush_call 5, Perror ''Flushing failed'']"
  by code_simp

end
